theory Spec2Isabelle
  imports Complex_Main "HOL-Library.Multiset"
begin

section \<open>The Monte-Carlo pi examples of the parallel-programming notebook\<close>

text \<open>
  The notebook \<^verbatim>\<open>04-Parallel-Programming-with-Python.ipynb\<close> holds two programs that
  estimate pi by sampling: one with threads and a shared counter, one with a pool of
  worker processes. Both are embedded here.

  Conventions of the embedding.
  \<^item> Python integers are \<open>int\<close>.
  \<^item> A Python float is an IEEE 754 binary64 number. A finite double is modelled by the
    rational it denotes, and every float operation is the exact operation followed by
    \<open>to_double\<close>, rounding to the nearest double, ties to even, with the gradual
    underflow of the format. Infinities, not-a-number and the sign of zero are not
    modelled: the model is that of the code while all magnitudes stay below \<open>2^1024\<close>,
    and it writes \<open>0\<close> where Python prints \<^verbatim>\<open>-0.0\<close>.
  \<^item> The literal \<^verbatim>\<open>12e6\<close> and the thread count \<^verbatim>\<open>nt = 4\<close> (respectively
    \<^verbatim>\<open>mp.cpu_count()\<close>) are parameters \<open>tot\<close> and \<open>nt\<close> (\<open>processes\<close>).
  \<^item> The library generator behind \<^verbatim>\<open>random.seed\<close> and \<^verbatim>\<open>random.random\<close> is a
    parameter: a record of a seeding function and a drawing function on an
    arbitrary generator state.
  \<^item> Exceptions are values of \<open>py_error\<close>, results are \<open>py_error + 'a\<close>.
  \<^item> The threads of the threading example share the counter \<^verbatim>\<open>inside\<close> and the one
    generator of the \<^verbatim>\<open>random\<close> module. They are run step by step under a schedule,
    a list of thread indices: every interleaving of their steps is a schedule.
\<close>

subsection \<open>Errors\<close>

datatype py_error = ZeroDivisionError | ValueError | MeanOfEmpty

subsection \<open>Double-precision arithmetic\<close>

text \<open>The number of binary digits of a natural number.\<close>

fun bits :: "nat \<Rightarrow> nat" where
  "bits n = (if n = 0 then 0 else Suc (bits (n div 2)))"

declare bits.simps [simp del]

text \<open>For \<open>q > 0\<close>, the exponent \<open>e\<close> with \<open>2^e \<le> q < 2^(e+1)\<close>.\<close>

definition ilog2 :: "rat \<Rightarrow> int" where
  "ilog2 q = (if 1 \<le> q then int (bits (nat \<lfloor>q\<rfloor>)) - 1
              else - int (bits (nat (\<lceil>1 / q\<rceil> - 1))))"

text \<open>Rounding to the nearest integer, a tie going to the even one.\<close>

definition round_half_even :: "rat \<Rightarrow> int" where
  "round_half_even x =
     (let f = \<lfloor>x\<rfloor>; d = x - of_int f
      in if d < 1 / 2 then f else if 1 / 2 < d then f + 1
         else if even f then f else f + 1)"

text \<open>
  The exponent of the last place of a double near \<open>q\<close>: 53 significant bits, and never
  below \<open>2^-1074\<close>, the spacing of the subnormal numbers.
\<close>

definition ulp_exp :: "rat \<Rightarrow> int" where
  "ulp_exp q = max (ilog2 \<bar>q\<bar> - 52) (- 1074)"

definition to_double :: "rat \<Rightarrow> rat" where
  "to_double q =
     (if q = 0 then 0
      else sgn q * of_int (round_half_even (\<bar>q\<bar> / 2 powi ulp_exp q)) * 2 powi ulp_exp q)"

text \<open>The conversion of an integer operand, and the float operations of the source.\<close>

definition float_of_int :: "int \<Rightarrow> rat" where
  "float_of_int i = to_double (of_int i)"

definition fadd :: "rat \<Rightarrow> rat \<Rightarrow> rat" where
  "fadd a b = to_double (a + b)"

definition fmul :: "rat \<Rightarrow> rat \<Rightarrow> rat" where
  "fmul a b = to_double (a * b)"

text \<open>The float division \<^verbatim>\<open>a / b\<close>: raises on a zero divisor.\<close>

definition true_div :: "rat \<Rightarrow> rat \<Rightarrow> py_error + rat" where
  "true_div a b = (if b = 0 then Inl ZeroDivisionError else Inr (to_double (a / b)))"

subsection \<open>Truncation, range, the share of a worker\<close>

text \<open>\<^verbatim>\<open>int(x)\<close> on a float: truncation towards zero.\<close>

definition py_int :: "rat \<Rightarrow> int" where
  "py_int q = (if 0 \<le> q then \<lfloor>q\<rfloor> else \<lceil>q\<rceil>)"

text \<open>\<^verbatim>\<open>range(n)\<close>: the integers \<open>0, ..., n - 1\<close>, empty when \<open>n \<le> 0\<close>.\<close>

definition py_range :: "int \<Rightarrow> int list" where
  "py_range n = map int [0..<nat n]"

text \<open>
  \<^verbatim>\<open>int(12e6/nt)\<close>, with the literal as the parameter \<open>tot\<close>: both operands are
  doubles, the quotient is rounded to a double and then truncated.
\<close>

definition samples_of :: "int \<Rightarrow> int \<Rightarrow> py_error + int" where
  "samples_of tot nt =
     (case true_div (float_of_int tot) (float_of_int nt) of
        Inl e \<Rightarrow> Inl e
      | Inr q \<Rightarrow> Inr (py_int q))"

subsection \<open>The random generator\<close>

record 'g generator =
  rng_seed :: "int \<Rightarrow> 'g"
  rng_random :: "'g \<Rightarrow> rat \<times> 'g"

text \<open>The test of the source, \<^verbatim>\<open>(x*x)+(y*y)<1\<close>: two products and a sum, each rounded.\<close>

definition in_circle :: "rat \<times> rat \<Rightarrow> bool" where
  "in_circle p = (case p of (x, y) \<Rightarrow> fadd (fmul x x) (fmul y y) < 1)"

subsection \<open>The threading example\<close>

text \<open>
  \<^verbatim>\<open>
  def calcInside(nsamples,rank):
      global inside
      random.seed(rank)
      for i in range(nsamples):
          x = random.random()
          y = random.random()
          if (x*x)+(y*y)<1:
              lock.acquire()
              inside += 1
              lock.release()
  \<close>
  The globals the function touches are the counter \<open>inside\<close> and the state of the
  module-level generator. \<open>calcInside_thr\<close> is the function run from its first to its
  last statement with no other thread in between.
\<close>

record 'g globals =
  inside :: int
  gen :: 'g

fun thr_loop :: "('g \<Rightarrow> rat \<times> 'g) \<Rightarrow> nat \<Rightarrow> 'g globals \<Rightarrow> 'g globals" where
  "thr_loop rnd 0 st = st"
| "thr_loop rnd (Suc k) st =
     (case rnd (gen st) of (x, g1) \<Rightarrow>
      case rnd g1 of (y, g2) \<Rightarrow>
        thr_loop rnd k
          (if in_circle (x, y) then st\<lparr>inside := inside st + 1, gen := g2\<rparr>
           else st\<lparr>gen := g2\<rparr>))"

definition calcInside_thr :: "'g generator \<Rightarrow> int \<Rightarrow> int \<Rightarrow> 'g globals \<Rightarrow> 'g globals" where
  "calcInside_thr R nsamples rank st =
     thr_loop (rng_random R) (nat nsamples) (st\<lparr>gen := rng_seed R rank\<rparr>)"

text \<open>
  \<^verbatim>\<open>
  nt=4
  inside = 0
  samples=int(12e6/nt)
  threads=[Thread(target=calcInside, args=(samples,i)) for i in range(nt)]
  for t in threads: t.start()
  for t in threads: t.join()
  print((4.0*inside)/(1.0*samples*nt))
  \<close>
  \<open>thread_args\<close> is the list of argument pairs the threads are built with: the
  sample count and the rank (the seed) of each worker.
\<close>

definition thread_args :: "int \<Rightarrow> int \<Rightarrow> py_error + (int \<times> int) list" where
  "thread_args tot nt =
     (case samples_of tot nt of
        Inl e \<Rightarrow> Inl e
      | Inr samples \<Rightarrow> Inr (map (\<lambda>i. (samples, i)) (py_range nt)))"

text \<open>The sample counts and the seeds of the workers, in the order of the threads.\<close>

definition sample_counts :: "int \<Rightarrow> int \<Rightarrow> py_error + int list" where
  "sample_counts tot nt =
     (case thread_args tot nt of Inl e \<Rightarrow> Inl e | Inr ts \<Rightarrow> Inr (map fst ts))"


text \<open>The printed expression \<^verbatim>\<open>(4.0*inside)/(1.0*samples*nt)\<close>.\<close>

definition final_ratio :: "int \<Rightarrow> int \<Rightarrow> int \<Rightarrow> py_error + rat" where
  "final_ratio ins samples nt =
     true_div (fmul 4 (float_of_int ins))
              (fmul (fmul 1 (float_of_int samples)) (float_of_int nt))"

text \<open>
  The threads run concurrently. A thread is at one of these points of \<^verbatim>\<open>calcInside\<close>:
  before \<^verbatim>\<open>random.seed(rank)\<close>; before the draw of \<open>x\<close> or of \<open>y\<close>, with the number of
  iterations still to do; before the increment of \<open>inside\<close>, which the lock makes one
  step; or at its end. Beside its position a thread carries its arguments and two
  observations that the source does not store: the pairs it has drawn and the number of
  increments it has made.
\<close>

datatype pc = Start | DrawX nat | DrawY nat rat | Incr nat | Done

record thread_state =
  t_pc :: pc
  t_nsamples :: int
  t_rank :: int
  t_pairs :: "(rat \<times> rat) list"
  t_hits :: int

definition new_thread :: "int \<Rightarrow> int \<Rightarrow> thread_state" where
  "new_thread nsamples rank =
     \<lparr>t_pc = Start, t_nsamples = nsamples, t_rank = rank, t_pairs = [], t_hits = 0\<rparr>"

text \<open>After an iteration with \<open>k\<close> iterations to do, that one included.\<close>

definition next_iter :: "nat \<Rightarrow> pc" where
  "next_iter k = (if k \<le> 1 then Done else DrawX (k - 1))"

definition thread_step ::
  "'g generator \<Rightarrow> thread_state \<Rightarrow> 'g globals \<Rightarrow> thread_state \<times> 'g globals" where
  "thread_step R t st =
     (case t_pc t of
        Start \<Rightarrow>
          (t\<lparr>t_pc := (if nat (t_nsamples t) = 0 then Done else DrawX (nat (t_nsamples t)))\<rparr>,
           st\<lparr>gen := rng_seed R (t_rank t)\<rparr>)
      | DrawX k \<Rightarrow>
          (case rng_random R (gen st) of (x, g1) \<Rightarrow> (t\<lparr>t_pc := DrawY k x\<rparr>, st\<lparr>gen := g1\<rparr>))
      | DrawY k x \<Rightarrow>
          (case rng_random R (gen st) of (y, g2) \<Rightarrow>
             (t\<lparr>t_pc := (if in_circle (x, y) then Incr k else next_iter k),
                t_pairs := t_pairs t @ [(x, y)]\<rparr>,
              st\<lparr>gen := g2\<rparr>))
      | Incr k \<Rightarrow>
          (t\<lparr>t_pc := next_iter k, t_hits := t_hits t + 1\<rparr>, st\<lparr>inside := inside st + 1\<rparr>)
      | Done \<Rightarrow> (t, st))"

text \<open>
  A schedule names, step by step, the thread that moves; an index that names no thread
  is skipped, and a thread at its end does not move.
\<close>

fun run_schedule ::
  "'g generator \<Rightarrow> nat list \<Rightarrow> thread_state list \<times> 'g globals
     \<Rightarrow> thread_state list \<times> 'g globals" where
  "run_schedule R [] c = c"
| "run_schedule R (i # sched) c =
     (if i < length (fst c)
      then (case thread_step R (fst c ! i) (snd c) of
              (t', st') \<Rightarrow> run_schedule R sched ((fst c)[i := t'], st'))
      else run_schedule R sched c)"

text \<open>
  The main block under a schedule. \<^verbatim>\<open>t.join()\<close> returns when the thread has ended: a
  schedule that leaves a thread unfinished is not a run of the program, and gives
  \<open>None\<close>.
\<close>

definition main_threading ::
  "'g generator \<Rightarrow> 'g \<Rightarrow> int \<Rightarrow> int \<Rightarrow> nat list \<Rightarrow> (py_error + rat) option" where
  "main_threading R g0 tot nt sched =
     (case samples_of tot nt of
        Inl e \<Rightarrow> Some (Inl e)
      | Inr samples \<Rightarrow>
          (case run_schedule R sched
                  (map (\<lambda>i. new_thread samples i) (py_range nt), \<lparr>inside = 0, gen = g0\<rparr>) of
             (ts, st) \<Rightarrow>
               if list_all (\<lambda>t. t_pc t = Done) ts
               then Some (final_ratio (inside st) samples nt)
               else None))"

subsection \<open>The multiprocessing example\<close>

text \<open>
  \<^verbatim>\<open>
  processes = mp.cpu_count()
  nsamples = int(12e6/processes)

  def calcInside(rank):
      inside = 0
      random.seed(rank)
      for i in range(nsamples):
          x = random.random();
          y = random.random();
          if (x*x)+(y*y)<1:
              inside += 1
      return (4.0*inside)/nsamples
  \<close>
  Here the counter is local and every worker process has a generator of its own.
\<close>

fun mp_loop :: "('g \<Rightarrow> rat \<times> 'g) \<Rightarrow> nat \<Rightarrow> 'g \<Rightarrow> int \<Rightarrow> int \<times> 'g" where
  "mp_loop rnd 0 g ins = (ins, g)"
| "mp_loop rnd (Suc k) g ins =
     (case rnd g of (x, g1) \<Rightarrow>
      case rnd g1 of (y, g2) \<Rightarrow>
        mp_loop rnd k g2 (if in_circle (x, y) then ins + 1 else ins))"

text \<open>The local counter and the generator state when the loop is left.\<close>

definition calcInside_count :: "'g generator \<Rightarrow> int \<Rightarrow> int \<Rightarrow> int \<times> 'g" where
  "calcInside_count R nsamples rank = mp_loop (rng_random R) (nat nsamples) (rng_seed R rank) 0"

definition calcInside_mp :: "'g generator \<Rightarrow> int \<Rightarrow> int \<Rightarrow> py_error + rat" where
  "calcInside_mp R nsamples rank =
     true_div (fmul 4 (float_of_int (fst (calcInside_count R nsamples rank))))
              (float_of_int nsamples)"

text \<open>
  \<^verbatim>\<open>
  pool = mp.Pool(processes)
  result = pool.map(calcInside, range(processes))
  print(np.mean(result))
  \<close>
  \<open>pool_map\<close> gives the results in the order of the arguments, or the first
  exception of a worker. \<^verbatim>\<open>mp.Pool\<close> raises \<^verbatim>\<open>ValueError\<close> when the number of
  processes is below one.
\<close>

fun pool_map :: "('a \<Rightarrow> py_error + 'b) \<Rightarrow> 'a list \<Rightarrow> py_error + 'b list" where
  "pool_map f [] = Inr []"
| "pool_map f (x # xs) =
     (case f x of
        Inl e \<Rightarrow> Inl e
      | Inr y \<Rightarrow> (case pool_map f xs of Inl e \<Rightarrow> Inl e | Inr ys \<Rightarrow> Inr (y # ys)))"

text \<open>
  \<^verbatim>\<open>np.mean\<close> of a list of floats is the sum of the array divided by its length. The sum
  of a contiguous array of doubles is numpy's pairwise summation: fewer than 8 elements
  are added from left to right, starting from 0; up to 128 elements are added into 8
  accumulators, element \<open>i\<close> into accumulator \<open>i mod 8\<close>, the accumulators are combined
  as a balanced tree and the elements beyond the last full group of 8 are added to the
  result one by one; a longer array is split in two, the first part a multiple of 8
  long, and the sums of the parts are added. \<open>add8 r xs\<close> adds the groups of 8 of \<open>xs\<close>
  into the accumulators \<open>r\<close>.
\<close>

fun add8 :: "rat list \<Rightarrow> rat list \<Rightarrow> rat list" where
  "add8 r xs = (if length xs < 8 then r else add8 (map2 fadd r (take 8 xs)) (drop 8 xs))"

declare add8.simps [simp del]

definition block_sum :: "rat list \<Rightarrow> rat" where
  "block_sum xs =
     (let m = length xs - length xs mod 8;
          r = add8 (take 8 xs) (take (m - 8) (drop 8 xs));
          res = fadd (fadd (fadd (r ! 0) (r ! 1)) (fadd (r ! 2) (r ! 3)))
                     (fadd (fadd (r ! 4) (r ! 5)) (fadd (r ! 6) (r ! 7)))
      in foldl fadd res (drop m xs))"

function pairwise_sum :: "rat list \<Rightarrow> rat" where
  "pairwise_sum xs =
     (if length xs < 8 then foldl fadd 0 xs
      else if length xs \<le> 128 then block_sum xs
      else (let n2 = length xs div 2 - (length xs div 2) mod 8
            in fadd (pairwise_sum (take n2 xs)) (pairwise_sum (drop n2 xs))))"
  by pat_completeness auto
termination
  by (relation "measure length") (auto simp: Let_def)

declare pairwise_sum.simps [simp del]

text \<open>The reduction starts from 0 and adds the pairwise sum of the array to it.\<close>

definition np_sum :: "rat list \<Rightarrow> rat" where
  "np_sum xs = fadd 0 (pairwise_sum xs)"

text \<open>
  \<^verbatim>\<open>np.mean\<close> of an empty list is not a number, which is the value \<open>MeanOfEmpty\<close> here.
\<close>

definition np_mean :: "rat list \<Rightarrow> py_error + rat" where
  "np_mean xs =
     (if xs = [] then Inl MeanOfEmpty
      else true_div (np_sum xs) (float_of_int (int (length xs))))"

definition main_mp :: "'g generator \<Rightarrow> int \<Rightarrow> int \<Rightarrow> py_error + rat" where
  "main_mp R tot processes =
     (case samples_of tot processes of
        Inl e \<Rightarrow> Inl e
      | Inr nsamples \<Rightarrow>
          if processes < 1 then Inl ValueError
          else (case pool_map (calcInside_mp R nsamples) (py_range processes) of
                  Inl e \<Rightarrow> Inl e
                | Inr result \<Rightarrow> np_mean result))"

subsection \<open>Specification-side notions\<close>

text \<open>
  The pairs a worker draws, as the specification words it: \<open>n\<close> pairs \<open>(x, y)\<close>, drawn
  one coordinate after the other from the generator state \<open>g\<close>.
\<close>

fun draws :: "('g \<Rightarrow> rat \<times> 'g) \<Rightarrow> nat \<Rightarrow> 'g \<Rightarrow> (rat \<times> rat) list" where
  "draws rnd 0 g = []"
| "draws rnd (Suc k) g =
     (case rnd g of (x, g1) \<Rightarrow> case rnd g1 of (y, g2) \<Rightarrow> (x, y) # draws rnd k g2)"

text \<open>The generator state after \<open>k\<close> pairs have been drawn from \<open>g\<close>.\<close>

fun after_draws :: "('g \<Rightarrow> rat \<times> 'g) \<Rightarrow> nat \<Rightarrow> 'g \<Rightarrow> 'g" where
  "after_draws rnd 0 g = g"
| "after_draws rnd (Suc k) g = after_draws rnd k (snd (rnd (snd (rnd g))))"

text \<open>The number of hits of the worker with \<open>n\<close> samples and seed \<open>s\<close>.\<close>

definition hits :: "'g generator \<Rightarrow> int \<Rightarrow> int \<Rightarrow> int" where
  "hits R n s = int (length (filter in_circle (draws (rng_random R) (nat n) (rng_seed R s))))"

text \<open>The rationals that are doubles: at most 53 significant bits, no bit below \<open>2^-1074\<close>.\<close>

definition is_double :: "rat \<Rightarrow> bool" where
  "is_double d = (\<exists>m j. \<bar>m\<bar> \<le> 2 ^ 53 \<and> - 1074 \<le> j \<and> d = of_int m * 2 powi j)"

text \<open>
  \<open>rsum M s\<close>: the double \<open>s\<close> is a sum of the values of the multiset \<open>M\<close>, added in
  some order and grouping, each addition rounded.
\<close>

inductive rsum :: "rat multiset \<Rightarrow> rat \<Rightarrow> bool" where
  rsum_empty: "rsum {#} 0"
| rsum_single: "rsum {#x#} x"
| rsum_add: "rsum M a \<Longrightarrow> rsum N b \<Longrightarrow> rsum (M + N) (fadd a b)"

text \<open>
  What holds of a thread at each of its points: it has drawn the pairs of the
  iterations it has finished, and has made one increment for each of them that passed
  the test, but for the one it is about to make.
\<close>

definition thread_inv :: "thread_state \<Rightarrow> bool" where
  "thread_inv t =
     (let n = nat (t_nsamples t);
          p = length (t_pairs t);
          h = int (length (filter in_circle (t_pairs t)))
      in case t_pc t of
           Start \<Rightarrow> p = 0 \<and> t_hits t = 0
         | DrawX k \<Rightarrow> 1 \<le> k \<and> k \<le> n \<and> p + k = n \<and> t_hits t = h
         | DrawY k x \<Rightarrow> 1 \<le> k \<and> k \<le> n \<and> p + k = n \<and> t_hits t = h
         | Incr k \<Rightarrow> 1 \<le> k \<and> k \<le> n \<and> p + k = n + 1 \<and> t_hits t + 1 = h
         | Done \<Rightarrow> p = n \<and> t_hits t = h)"

text \<open>The schedule that runs the threads one after the other, \<open>f\<close> steps each.\<close>

definition seq_schedule :: "nat \<Rightarrow> nat \<Rightarrow> nat list" where
  "seq_schedule f m = concat (map (replicate f) [0..<m])"

subsection \<open>A small generator to evaluate the model\<close>

text \<open>
  A linear congruential generator with 16 states; the value drawn in state \<open>g\<close> is
  \<open>g / 16\<close>, a double in \<open>[0, 1)\<close>.
\<close>

definition sixteenth :: "nat \<Rightarrow> rat" where
  "sixteenth g = of_nat (g mod 16) / 16"

definition lcg :: "nat generator" where
  "lcg = \<lparr>rng_seed = (\<lambda>s. nat \<bar>s\<bar> mod 16),
          rng_random = (\<lambda>g. (sixteenth g, (5 * g + 3) mod 16))\<rparr>"

section \<open>Facts about the double-precision model\<close>

lemma bits_bounds:
  assumes "0 < n"
  shows "2 ^ (bits n - 1) \<le> n \<and> n < 2 ^ bits n"
  using assms
proof (induction n rule: bits.induct)
  case (1 n)
  show ?case
  proof (cases "n div 2 = 0")
    case True
    then have "n = 1" using "1.prems" by presburger
    then show ?thesis by (simp add: bits.simps)
  next
    case False
    then have ih: "2 ^ (bits (n div 2) - 1) \<le> n div 2 \<and> n div 2 < 2 ^ bits (n div 2)"
      using "1.IH" "1.prems" by simp
    have pos: "0 < bits (n div 2)" using False by (simp add: bits.simps [of "n div 2"])
    have b: "bits n = Suc (bits (n div 2))" using "1.prems" by (simp add: bits.simps [of n])
    have "2 ^ (bits n - 1) = 2 * 2 ^ (bits (n div 2) - 1)"
      using pos b by (cases "bits (n div 2)") simp_all
    also have "\<dots> \<le> 2 * (n div 2)" using ih by simp
    also have "\<dots> \<le> n" by simp
    finally have lo: "2 ^ (bits n - 1) \<le> n" .
    have "n < 2 * (n div 2) + 2" by presburger
    also have "\<dots> \<le> 2 * 2 ^ bits (n div 2)" using ih by simp
    finally have hi: "n < 2 ^ bits n" using b by simp
    show ?thesis using lo hi by simp
  qed
qed

lemma bits_pos: "0 < n \<Longrightarrow> 0 < bits n"
  by (simp add: bits.simps [of n])

lemma recip_le_swap:
  fixes q B :: rat
  assumes "0 < q" "0 < B" "1 / q \<le> B"
  shows "1 / B \<le> q"
  using assms by (simp add: field_simps)

lemma recip_less_swap:
  fixes q C :: rat
  assumes "0 < q" "0 < C" "C < 1 / q"
  shows "q < 1 / C"
  using assms by (simp add: field_simps)

lemma ilog2_bounds:
  assumes "0 < q"
  shows "2 powi ilog2 q \<le> q \<and> q < 2 powi (ilog2 q + 1)"
proof (cases "1 \<le> q")
  case True
  let ?n = "nat \<lfloor>q\<rfloor>"
  have n: "0 < ?n" using True by simp
  have fl: "of_int \<lfloor>q\<rfloor> \<le> q" "q < of_int \<lfloor>q\<rfloor> + 1" by linarith+
  have nn: "int ?n = \<lfloor>q\<rfloor>" using True by simp
  from bits_bounds [OF n] have b: "2 ^ (bits ?n - 1) \<le> ?n" "?n < 2 ^ bits ?n" by blast+
  have e: "ilog2 q = int (bits ?n) - 1" using True by (simp add: ilog2_def)
  have e': "ilog2 q = int (bits ?n - 1)" using e bits_pos [OF n] by simp
  have "(2::rat) powi ilog2 q = 2 ^ (bits ?n - 1)" unfolding e' by simp
  also have "\<dots> = of_nat (2 ^ (bits ?n - 1))" by simp
  also have "\<dots> \<le> of_nat ?n" using b(1) by (simp only: of_nat_le_iff)
  also have "\<dots> = of_int \<lfloor>q\<rfloor>" using nn by (metis of_int_of_nat_eq)
  also have "\<dots> \<le> q" by (rule fl)
  finally have lo: "2 powi ilog2 q \<le> q" .
  have "Suc ?n \<le> 2 ^ bits ?n" using b(2) by (rule Suc_leI)
  then have "(of_nat (Suc ?n) :: rat) \<le> of_nat (2 ^ bits ?n)" by (simp only: of_nat_le_iff)
  moreover have "(of_nat (Suc ?n) :: rat) = of_int \<lfloor>q\<rfloor> + 1"
    using nn by (metis of_int_of_nat_eq of_nat_Suc add.commute)
  ultimately have "of_int \<lfloor>q\<rfloor> + 1 \<le> (2::rat) ^ bits ?n" by simp
  then have "q < (2::rat) ^ bits ?n" using fl(2) by linarith
  moreover have "(2::rat) powi (ilog2 q + 1) = 2 ^ bits ?n" unfolding e by simp
  ultimately have hi: "q < 2 powi (ilog2 q + 1)" by simp
  show ?thesis using lo hi by simp
next
  case False
  let ?x = "1 / q"
  let ?m = "nat (\<lceil>?x\<rceil> - 1)"
  have x1: "1 < ?x" using False assms by simp
  then have c2: "2 \<le> \<lceil>?x\<rceil>" by linarith
  have m: "0 < ?m" using c2 by linarith
  have mm: "int ?m = \<lceil>?x\<rceil> - 1" using c2 by linarith
  have ce: "of_int \<lceil>?x\<rceil> - 1 < ?x" "?x \<le> of_int \<lceil>?x\<rceil>" by linarith+
  from bits_bounds [OF m] have b: "2 ^ (bits ?m - 1) \<le> ?m" "?m < 2 ^ bits ?m" by blast+
  have e: "ilog2 q = - int (bits ?m)" using False by (simp add: ilog2_def)
  have mr: "(of_nat ?m :: rat) = of_int \<lceil>?x\<rceil> - 1"
    using mm by (metis of_int_of_nat_eq of_int_diff of_int_1)
  have "(2::rat) ^ (bits ?m - 1) = of_nat (2 ^ (bits ?m - 1))" by simp
  also have "\<dots> \<le> of_nat ?m" using b(1) by (simp only: of_nat_le_iff)
  also have "\<dots> < ?x" using mr ce(1) by simp
  finally have lt: "(2::rat) ^ (bits ?m - 1) < 1 / q" .
  have "Suc ?m \<le> 2 ^ bits ?m" using b(2) by (rule Suc_leI)
  then have "(of_nat (Suc ?m) :: rat) \<le> of_nat (2 ^ bits ?m)" by (simp only: of_nat_le_iff)
  then have "of_int \<lceil>?x\<rceil> \<le> (2::rat) ^ bits ?m" using mr by simp
  then have le: "1 / q \<le> (2::rat) ^ bits ?m" using ce(2) by linarith
  have p: "(0::rat) < 2 ^ bits ?m" by simp
  have lo: "2 powi ilog2 q \<le> q"
  proof -
    have "1 / 2 ^ bits ?m \<le> q" using assms p le by (rule recip_le_swap)
    then show ?thesis unfolding e by (simp only: power_int_minus_divide power_int_of_nat)
  qed
  have hi: "q < 2 powi (ilog2 q + 1)"
  proof -
    have p': "(0::rat) < 2 ^ (bits ?m - 1)" by simp
    have "q < 1 / 2 ^ (bits ?m - 1)" using assms p' lt by (rule recip_less_swap)
    moreover have "- int (bits ?m) + 1 = - int (bits ?m - 1)" using bits_pos [OF m] by linarith
    ultimately show ?thesis unfolding e by (simp only: power_int_minus_divide power_int_of_nat)
  qed
  show ?thesis using lo hi by simp
qed

lemma powi_two_pos: "(0::rat) < 2 powi e"
  by (simp add: zero_less_power_int)

lemma powi_two_less_iff: "(2::rat) powi a < 2 powi b \<longleftrightarrow> a < b"
proof
  assume l: "(2::rat) powi a < 2 powi b"
  show "a < b"
  proof (rule ccontr)
    assume "\<not> a < b"
    then have "b \<le> a" by simp
    then have "(2::rat) powi b \<le> 2 powi a" by (intro power_int_increasing) simp_all
    then show False using l by simp
  qed
next
  assume "a < b"
  then show "(2::rat) powi a < 2 powi b" by (intro power_int_strict_increasing) simp_all
qed

lemma powi_two_le_iff: "(2::rat) powi a \<le> 2 powi b \<longleftrightarrow> a \<le> b"
  using powi_two_less_iff [of b a] by (auto simp: not_less [symmetric])

lemma ilog2_unique:
  assumes "2 powi e \<le> q" "q < 2 powi (e + 1)"
  shows "ilog2 q = e"
proof -
  have q: "0 < q" using assms(1) powi_two_pos [of e] by linarith
  from ilog2_bounds [OF q] have b: "2 powi ilog2 q \<le> q" "q < 2 powi (ilog2 q + 1)" by blast+
  have "(2::rat) powi e < 2 powi (ilog2 q + 1)" using assms(1) b(2) by linarith
  then have a: "e < ilog2 q + 1" by (simp only: powi_two_less_iff)
  have "(2::rat) powi ilog2 q < 2 powi (e + 1)" using assms(2) b(1) by linarith
  then have c: "ilog2 q < e + 1" by (simp only: powi_two_less_iff)
  show ?thesis using a c by simp
qed

lemma rhe_cases:
  "round_half_even x = \<lfloor>x\<rfloor> \<or> round_half_even x = \<lfloor>x\<rfloor> + 1"
  by (simp add: round_half_even_def Let_def)

lemma rhe_of_int [simp]: "round_half_even (of_int i) = i"
  by (simp add: round_half_even_def Let_def)

lemma rhe_ge:
  assumes "of_int t \<le> x"
  shows "t \<le> round_half_even x"
proof -
  have "t \<le> \<lfloor>x\<rfloor>" using assms by (simp add: le_floor_iff)
  then show ?thesis using rhe_cases [of x] by linarith
qed

lemma rhe_le:
  assumes "x \<le> of_int t"
  shows "round_half_even x \<le> t"
proof (cases "x = of_int \<lfloor>x\<rfloor>")
  case True
  then have "round_half_even x = \<lfloor>x\<rfloor>" by (metis rhe_of_int)
  moreover have "\<lfloor>x\<rfloor> \<le> t" using assms by (simp add: floor_le_iff)
  ultimately show ?thesis by simp
next
  case False
  have "of_int \<lfloor>x\<rfloor> < x" using False by (auto simp: less_le)
  then have "(of_int \<lfloor>x\<rfloor> :: rat) < of_int t" using assms by linarith
  then have "\<lfloor>x\<rfloor> < t" by (simp only: of_int_less_iff)
  then show ?thesis using rhe_cases [of x] by linarith
qed

lemma rhe_error: "\<bar>of_int (round_half_even x) - x\<bar> \<le> 1 / 2"
proof -
  have f: "of_int \<lfloor>x\<rfloor> \<le> x" "x < of_int \<lfloor>x\<rfloor> + 1" by linarith+
  show ?thesis
    using f by (auto simp: round_half_even_def Let_def abs_le_iff)
qed

lemma ulp_exp_minus [simp]: "ulp_exp (- q) = ulp_exp q"
  by (simp add: ulp_exp_def)

lemma to_double_minus: "to_double (- q) = - to_double q"
  by (simp add: to_double_def)

lemma to_double_zero [simp]: "to_double 0 = 0"
  by (simp add: to_double_def)

lemma to_double_pos:
  assumes "0 < q"
  shows "to_double q = of_int (round_half_even (q / 2 powi ulp_exp q)) * 2 powi ulp_exp q"
  using assms by (simp add: to_double_def)

lemma to_double_nonneg:
  assumes "0 \<le> q"
  shows "0 \<le> to_double q"
proof (cases "q = 0")
  case True
  then show ?thesis by simp
next
  case False
  then have q: "0 < q" using assms by simp
  have "(0::rat) \<le> q / 2 powi ulp_exp q" using q powi_two_pos [of "ulp_exp q"] by simp
  then have "(of_int 0 :: rat) \<le> q / 2 powi ulp_exp q" by simp
  then have "0 \<le> round_half_even (q / 2 powi ulp_exp q)" by (rule rhe_ge)
  then have "(0::rat) \<le> of_int (round_half_even (q / 2 powi ulp_exp q))" by simp
  then show ?thesis
    unfolding to_double_pos [OF q] using powi_two_pos [of "ulp_exp q"]
    by (intro mult_nonneg_nonneg) simp_all
qed

lemma ulp_exp_cases:
  assumes "0 < q"
  shows "(ulp_exp q = - 1074 \<or> 2 powi (ulp_exp q + 52) \<le> q) \<and> q < 2 powi (ulp_exp q + 53)"
proof -
  from ilog2_bounds [OF assms]
  have b: "2 powi ilog2 q \<le> q" "q < 2 powi (ilog2 q + 1)" by blast+
  have a: "\<bar>q\<bar> = q" using assms by simp
  have le: "ilog2 q + 1 \<le> ulp_exp q + 53" by (simp add: ulp_exp_def a)
  have "(2::rat) powi (ilog2 q + 1) \<le> 2 powi (ulp_exp q + 53)"
    using le by (simp only: powi_two_le_iff)
  then have hi: "q < 2 powi (ulp_exp q + 53)" using b(2) by linarith
  have lo: "ulp_exp q = - 1074 \<or> 2 powi (ulp_exp q + 52) \<le> q"
  proof (cases "ulp_exp q = - 1074")
    case True
    then show ?thesis by simp
  next
    case False
    then have "ulp_exp q + 52 = ilog2 q" by (simp add: ulp_exp_def a max_def split: if_splits)
    then show ?thesis using b(1) by simp
  qed
  show ?thesis using lo hi by simp
qed

lemma ulp_exp_eq:
  assumes "2 powi (e + 52) \<le> \<bar>q\<bar>" "\<bar>q\<bar> < 2 powi (e + 53)" "- 1074 \<le> e"
  shows "ulp_exp q = e"
proof -
  have "\<bar>q\<bar> < 2 powi (e + 52 + 1)" using assms(2) by (simp add: add.commute add.left_commute)
  then have "ilog2 \<bar>q\<bar> = e + 52" using assms(1) by (intro ilog2_unique)
  then show ?thesis using assms(3) by (simp add: ulp_exp_def)
qed

lemma to_double_eq:
  assumes "2 powi (e + 52) \<le> \<bar>q\<bar>" "\<bar>q\<bar> < 2 powi (e + 53)" "- 1074 \<le> e"
  shows "to_double q = sgn q * of_int (round_half_even (\<bar>q\<bar> / 2 powi e)) * 2 powi e"
proof -
  have "0 < \<bar>q\<bar>" using assms(1) powi_two_pos [of "e + 52"] by linarith
  then have "q \<noteq> 0" by simp
  then show ?thesis by (simp add: to_double_def ulp_exp_eq [OF assms])
qed

lemma powi_two_split:
  assumes "e \<le> j"
  shows "(2::rat) powi j = of_int (2 ^ nat (j - e)) * 2 powi e"
proof -
  have "(2::rat) powi j = 2 powi ((j - e) + e)" by simp
  also have "\<dots> = 2 powi (j - e) * 2 powi e" by (rule power_int_add) simp
  also have "(2::rat) powi (j - e) = 2 ^ nat (j - e)"
    using assms by (intro power_int_nonneg_exp) simp
  finally show ?thesis by simp
qed

lemma grid_coarser:
  assumes "e \<le> j"
  shows "of_int m * (2::rat) powi j = of_int (m * 2 ^ nat (j - e)) * 2 powi e"
  by (simp add: powi_two_split [OF assms] mult.assoc)

lemma quotient_ge:
  fixes q P :: rat
  assumes "0 < P" "of_int t * P \<le> q"
  shows "of_int t \<le> q / P"
  using assms by (simp add: pos_le_divide_eq)

lemma quotient_le:
  fixes q P :: rat
  assumes "0 < P" "q \<le> of_int t * P"
  shows "q / P \<le> of_int t"
  using assms by (simp add: pos_divide_le_eq)

lemma scaled_le:
  fixes P :: rat
  assumes "0 < P" "(a::int) \<le> b"
  shows "of_int a * P \<le> of_int b * P"
  using assms by (simp add: mult_right_mono)

lemma to_double_ge_grid_pos:
  assumes "0 < q" "m \<le> 2 ^ 53" "- 1074 \<le> j" "of_int m * 2 powi j \<le> q"
  shows "of_int m * 2 powi j \<le> to_double q"
proof -
  let ?e = "ulp_exp q"
  let ?P = "(2::rat) powi ?e"
  let ?r = "round_half_even (q / ?P)"
  have P: "0 < ?P" by (rule powi_two_pos)
  have td: "to_double q = of_int ?r * ?P" using assms(1) by (rule to_double_pos)
  show ?thesis
  proof (cases "?e \<le> j")
    case True
    let ?t = "m * 2 ^ nat (j - ?e)"
    have d: "of_int m * (2::rat) powi j = of_int ?t * ?P" using True by (rule grid_coarser)
    have "of_int ?t * ?P \<le> q" using assms(4) unfolding d .
    then have "of_int ?t \<le> q / ?P" using P by (intro quotient_ge)
    then have "?t \<le> ?r" by (rule rhe_ge)
    then have "of_int ?t * ?P \<le> of_int ?r * ?P" using P by (intro scaled_le)
    then show ?thesis unfolding td d .
  next
    case False
    then have je: "j + 53 \<le> ?e + 52" by simp
    have "?e \<noteq> - 1074" using False assms(3) by simp
    then have lo: "2 powi (?e + 52) \<le> q" using ulp_exp_cases [OF assms(1)] by blast
    have sp: "(2::rat) powi (?e + 52) = of_int (2 ^ 52) * ?P"
      using powi_two_split [of ?e "?e + 52"] by simp
    have "of_int (2 ^ 52) \<le> q / ?P" using P lo unfolding sp by (intro quotient_ge)
    then have "2 ^ 52 \<le> ?r" by (rule rhe_ge)
    then have "of_int (2 ^ 52) * ?P \<le> of_int ?r * ?P" using P by (intro scaled_le)
    then have big: "2 powi (?e + 52) \<le> to_double q" unfolding td sp .
    have Pj: "(0::rat) < 2 powi j" by (rule powi_two_pos)
    have "of_int m * (2::rat) powi j \<le> of_int (2 ^ 53) * 2 powi j"
      using Pj assms(2) by (intro scaled_le)
    also have "\<dots> = 2 powi (j + 53)"
      using powi_two_split [of j "j + 53"] by simp
    also have "\<dots> \<le> 2 powi (?e + 52)" using je by (simp only: powi_two_le_iff)
    finally show ?thesis using big by linarith
  qed
qed

lemma to_double_le_grid_pos:
  assumes "0 < q" "m \<le> 2 ^ 53" "- 1074 \<le> j" "q \<le> of_int m * 2 powi j"
  shows "to_double q \<le> of_int m * 2 powi j"
proof -
  let ?e = "ulp_exp q"
  let ?P = "(2::rat) powi ?e"
  let ?r = "round_half_even (q / ?P)"
  have P: "0 < ?P" by (rule powi_two_pos)
  have td: "to_double q = of_int ?r * ?P" using assms(1) by (rule to_double_pos)
  show ?thesis
  proof (cases "?e \<le> j")
    case True
    let ?t = "m * 2 ^ nat (j - ?e)"
    have d: "of_int m * (2::rat) powi j = of_int ?t * ?P" using True by (rule grid_coarser)
    have "q \<le> of_int ?t * ?P" using assms(4) unfolding d .
    then have "q / ?P \<le> of_int ?t" using P by (intro quotient_le)
    then have "?r \<le> ?t" by (rule rhe_le)
    then have "of_int ?r * ?P \<le> of_int ?t * ?P" using P by (intro scaled_le)
    then show ?thesis unfolding td d .
  next
    case False
    then have je: "j + 53 \<le> ?e + 52" by simp
    have "?e \<noteq> - 1074" using False assms(3) by simp
    then have lo: "2 powi (?e + 52) \<le> q" using ulp_exp_cases [OF assms(1)] by blast
    have sp: "(2::rat) powi (?e + 52) = of_int (2 ^ 52) * ?P"
      using powi_two_split [of ?e "?e + 52"] by simp
    have Pj: "(0::rat) < 2 powi j" by (rule powi_two_pos)
    have "of_int m * (2::rat) powi j \<le> of_int (2 ^ 53) * 2 powi j"
      using Pj assms(2) by (intro scaled_le)
    also have "\<dots> = 2 powi (j + 53)"
      using powi_two_split [of j "j + 53"] by simp
    also have "\<dots> \<le> 2 powi (?e + 52)" using je by (simp only: powi_two_le_iff)
    finally have up: "of_int m * (2::rat) powi j \<le> 2 powi (?e + 52)" .
    have q: "q = of_int (2 ^ 52) * ?P" using lo up assms(4) unfolding sp by linarith
    have "q / ?P = of_int (2 ^ 52)" using P by (subst q) simp
    then have "?r = 2 ^ 52" by (simp only: rhe_of_int)
    then have "to_double q = q" unfolding td using q by simp
    then show ?thesis using assms(4) by simp
  qed
qed

lemma to_double_ge_grid:
  assumes "\<bar>m\<bar> \<le> 2 ^ 53" "- 1074 \<le> j" "of_int m * 2 powi j \<le> q"
  shows "of_int m * 2 powi j \<le> to_double q"
proof -
  have Pj: "(0::rat) < 2 powi j" by (rule powi_two_pos)
  consider "0 < q" | "q = 0" | "q < 0" by linarith
  then show ?thesis
  proof cases
    case 1
    have "m \<le> 2 ^ 53" using assms(1) by simp
    then show ?thesis using 1 assms(2,3) by (intro to_double_ge_grid_pos)
  next
    case 2
    then show ?thesis using assms(3) by simp
  next
    case 3
    have m: "- m \<le> 2 ^ 53" using assms(1) by simp
    have "- q \<le> of_int (- m) * 2 powi j" using assms(3) by simp
    then have "to_double (- q) \<le> of_int (- m) * 2 powi j"
      using 3 m assms(2) by (intro to_double_le_grid_pos) simp_all
    then show ?thesis by (simp add: to_double_minus)
  qed
qed

lemma to_double_le_grid:
  assumes "\<bar>m\<bar> \<le> 2 ^ 53" "- 1074 \<le> j" "q \<le> of_int m * 2 powi j"
  shows "to_double q \<le> of_int m * 2 powi j"
proof -
  have "\<bar>- m\<bar> \<le> 2 ^ 53" using assms(1) by simp
  moreover have "of_int (- m) * 2 powi j \<le> - q" using assms(3) by simp
  ultimately have "of_int (- m) * 2 powi j \<le> to_double (- q)"
    using assms(2) by (intro to_double_ge_grid)
  then show ?thesis by (simp add: to_double_minus)
qed

lemma to_double_grid:
  assumes "\<bar>m\<bar> \<le> 2 ^ 53" "- 1074 \<le> j"
  shows "to_double (of_int m * 2 powi j) = of_int m * 2 powi j"
  using to_double_ge_grid [OF assms, of "of_int m * 2 powi j"]
        to_double_le_grid [OF assms, of "of_int m * 2 powi j"]
  by simp

lemma to_double_ge_int:
  assumes "\<bar>m\<bar> \<le> 2 ^ 53" "of_int m \<le> q"
  shows "of_int m \<le> to_double q"
  using to_double_ge_grid [of m 0 q] assms by simp

lemma to_double_le_int:
  assumes "\<bar>m\<bar> \<le> 2 ^ 53" "q \<le> of_int m"
  shows "to_double q \<le> of_int m"
  using to_double_le_grid [of m 0 q] assms by simp

lemma to_double_of_int:
  assumes "\<bar>m\<bar> \<le> 2 ^ 53"
  shows "to_double (of_int m) = of_int m"
  using to_double_grid [of m 0] assms by simp

lemma scaled_error:
  fixes P x :: rat
  assumes "0 < P" "\<bar>of_int r - x / P\<bar> \<le> 1 / 2"
  shows "\<bar>of_int r * P - x\<bar> \<le> P / 2"
proof -
  have "of_int r * P - x = (of_int r - x / P) * P" using assms(1) by (simp add: field_simps)
  then have "\<bar>of_int r * P - x\<bar> = \<bar>of_int r - x / P\<bar> * P"
    using assms(1) by (simp add: abs_mult)
  also have "\<dots> \<le> (1 / 2) * P" using assms by (intro mult_right_mono) simp_all
  finally show ?thesis by simp
qed

lemma to_double_error_pos:
  assumes "0 < q"
  shows "\<bar>to_double q - q\<bar> \<le> 2 powi ulp_exp q / 2"
  unfolding to_double_pos [OF assms]
  by (intro scaled_error powi_two_pos rhe_error)

lemma to_double_error:
  "\<bar>to_double q - q\<bar> \<le> 2 powi ulp_exp q / 2"
proof -
  consider "0 < q" | "q = 0" | "q < 0" by linarith
  then show ?thesis
  proof cases
    case 1
    then show ?thesis by (rule to_double_error_pos)
  next
    case 2
    then show ?thesis using powi_two_pos [of "ulp_exp 0"] by simp
  next
    case 3
    then have "\<bar>to_double (- q) - (- q)\<bar> \<le> 2 powi ulp_exp (- q) / 2"
      by (intro to_double_error_pos) simp
    then show ?thesis by (simp add: to_double_minus abs_minus_commute)
  qed
qed

lemma ulp_exp_normal:
  assumes "2 powi (- 1022) \<le> \<bar>q\<bar>"
  shows "2 powi ulp_exp q \<le> \<bar>q\<bar> * 2 powi (- 52)"
proof -
  have q: "0 < \<bar>q\<bar>" using assms powi_two_pos [of "- 1022"] by linarith
  from ilog2_bounds [OF q]
  have b: "2 powi ilog2 \<bar>q\<bar> \<le> \<bar>q\<bar>" "\<bar>q\<bar> < 2 powi (ilog2 \<bar>q\<bar> + 1)" by blast+
  have "(2::rat) powi (- 1022) < 2 powi (ilog2 \<bar>q\<bar> + 1)" using assms b(2) by linarith
  then have "- 1022 < ilog2 \<bar>q\<bar> + 1" by (simp only: powi_two_less_iff)
  then have e: "ulp_exp q = ilog2 \<bar>q\<bar> + (- 52)" by (simp add: ulp_exp_def)
  have "(2::rat) powi ulp_exp q = 2 powi ilog2 \<bar>q\<bar> * 2 powi (- 52)"
    unfolding e by (rule power_int_add) simp
  also have "\<dots> \<le> \<bar>q\<bar> * 2 powi (- 52)"
    using b(1) powi_two_pos [of "- 52"] by (intro mult_right_mono) simp_all
  finally show ?thesis .
qed

lemma to_double_relative_error:
  assumes "2 powi (- 1022) \<le> \<bar>q\<bar>"
  shows "\<bar>to_double q - q\<bar> \<le> \<bar>q\<bar> * 2 powi (- 53)"
proof -
  have "\<bar>to_double q - q\<bar> \<le> 2 powi ulp_exp q / 2" by (rule to_double_error)
  also have "\<dots> \<le> (\<bar>q\<bar> * 2 powi (- 52)) / 2"
    using ulp_exp_normal [OF assms] by simp
  also have "\<dots> = \<bar>q\<bar> * 2 powi (- 53)" by simp
  finally show ?thesis .
qed

lemma py_int_minus: "py_int (- q) = - py_int q"
  by (auto simp: py_int_def ceiling_def)

lemma small_powi: "(2::rat) powi (- 1022) \<le> 2 powi (- 53)"
  by (simp add: powi_two_le_iff)

lemma rel_err_upper:
  fixes t q c :: rat
  assumes "\<bar>t - q\<bar> \<le> \<bar>q\<bar> * c" "0 < q"
  shows "t \<le> q + q * c"
proof -
  have "\<bar>q\<bar> = q" using assms(2) by simp
  then have "\<bar>t - q\<bar> \<le> q * c" using assms(1) by simp
  then show ?thesis by linarith
qed

lemma quotient_rounds_down:
  assumes "0 \<le> a" "a < 2 ^ 53" "1 \<le> b" "b \<le> 2 ^ 53"
  shows "py_int (to_double (of_int a / of_int b)) = a div b"
proof (cases "a = 0")
  case True
  then show ?thesis by (simp add: py_int_def)
next
  case False
  let ?q = "of_int a / of_int b :: rat"
  let ?k = "a div b"
  have a1: "1 \<le> a" using False assms(1) by simp
  have br: "(0::rat) < of_int b" using assms(3) by simp
  have eq: "a = ?k * b + a mod b" by simp
  have r: "0 \<le> a mod b" "a mod b < b" using assms(3) by simp_all
  have k0: "0 \<le> ?k" using assms by (simp add: pos_imp_zdiv_nonneg_iff)
  have kb1: "?k * b \<le> a" using eq r(1) by linarith
  have "?k * 1 \<le> ?k * b" using k0 assms(3) by (intro mult_left_mono) simp_all
  then have ka: "?k \<le> a" using kb1 by simp
  have kb: "\<bar>?k\<bar> \<le> 2 ^ 53" using k0 ka assms(2) by simp
  have "(of_int (?k * b) :: rat) \<le> of_int a" using kb1 by (simp only: of_int_le_iff)
  then have "of_int ?k * of_int b \<le> (of_int a :: rat)" by simp
  then have "of_int ?k \<le> ?q" using br by (simp add: pos_le_divide_eq)
  then have lo: "of_int ?k \<le> to_double ?q" using kb by (intro to_double_ge_int)
  have q0: "0 < ?q" using a1 br by simp
  have "(1::rat) \<le> of_int a" using a1 by simp
  moreover have "(of_int b :: rat) \<le> 2 ^ 53"
    using assms(4) by (metis of_int_le_iff of_int_numeral of_int_power)
  ultimately have "(1::rat) / 2 ^ 53 \<le> ?q" using br by (intro frac_le) simp_all
  moreover have "(2::rat) powi (- 53) = 1 / 2 ^ 53" by (simp add: power_int_minus_divide)
  ultimately have "2 powi (- 53) \<le> ?q" by (simp only:)
  with small_powi have "2 powi (- 1022) \<le> ?q" by (rule order_trans)
  moreover have "\<bar>?q\<bar> = ?q" using q0 by (simp only: abs_of_pos)
  ultimately have "2 powi (- 1022) \<le> \<bar>?q\<bar>" by (simp only:)
  then have "\<bar>to_double ?q - ?q\<bar> \<le> \<bar>?q\<bar> * 2 powi (- 53)" by (rule to_double_relative_error)
  then have up1: "to_double ?q \<le> ?q + ?q * 2 powi (- 53)" using q0 by (rule rel_err_upper)
  have "(of_int a :: rat) < 2 ^ 53"
    using assms(2) by (metis of_int_less_iff of_int_numeral of_int_power)
  then have "(of_int a :: rat) * 2 powi (- 53) < 1" by (simp add: power_int_minus_divide)
  then have "(of_int a + of_int a * 2 powi (- 53)) / of_int b < (of_int a + 1) / (of_int b :: rat)"
    using br by (intro divide_strict_right_mono) simp_all
  moreover have "?q + ?q * 2 powi (- 53) = (of_int a + of_int a * 2 powi (- 53)) / of_int b"
    by (simp add: add_divide_distrib)
  ultimately have up2: "to_double ?q < (of_int a + 1) / of_int b" using up1 by linarith
  have "a < ?k * b + b" using eq r(2) by linarith
  then have "a + 1 \<le> (?k + 1) * b" by (simp add: algebra_simps)
  then have "(of_int (a + 1) :: rat) \<le> of_int ((?k + 1) * b)" by (simp only: of_int_le_iff)
  then have "(of_int a + 1 :: rat) \<le> (of_int ?k + 1) * of_int b" by simp
  then have "(of_int a + 1) / of_int b \<le> (of_int ?k + 1 :: rat)"
    using br by (simp add: pos_divide_le_eq)
  then have hi: "to_double ?q < of_int ?k + 1" using up2 by linarith
  have nn: "0 \<le> to_double ?q" using q0 by (intro to_double_nonneg) simp
  have "\<lfloor>to_double ?q\<rfloor> = ?k" using lo hi by (simp add: floor_eq_iff)
  then show ?thesis using nn by (simp add: py_int_def)
qed

lemma floor_numeral_quotient:
  "\<lfloor>(numeral a :: rat) / numeral b\<rfloor> = numeral a div numeral b"
  using floor_divide_of_int_eq [of "numeral a" "numeral b", where ?'a = rat] by simp

lemmas dbl_eval = round_half_even_def Let_def floor_numeral_quotient

section \<open>The partitioning step\<close>

lemma float_of_int_exact:
  assumes "\<bar>i\<bar> \<le> 2 ^ 53"
  shows "float_of_int i = of_int i"
  unfolding float_of_int_def using assms by (rule to_double_of_int)

lemma float_of_int_nonzero:
  assumes "i \<noteq> 0"
  shows "float_of_int i \<noteq> 0"
proof (cases "0 < i")
  case True
  then have "(of_int 1 :: rat) \<le> of_int i" by simp
  then have "of_int 1 \<le> to_double (of_int i)" by (intro to_double_ge_int) simp_all
  then show ?thesis by (simp add: float_of_int_def)
next
  case False
  then have "(of_int i :: rat) \<le> of_int (- 1)" using assms by simp
  then have "to_double (of_int i) \<le> of_int (- 1)" by (intro to_double_le_int) simp_all
  then show ?thesis by (simp add: float_of_int_def)
qed

lemma float_of_int_zero [simp]: "float_of_int 0 = 0"
  by (simp add: float_of_int_def)

lemma samples_of_zero: "samples_of tot 0 = Inl ZeroDivisionError"
  by (simp add: samples_of_def true_div_def)

lemma samples_of_nonzero:
  assumes "nt \<noteq> 0"
  shows "samples_of tot nt = Inr (py_int (to_double (float_of_int tot / float_of_int nt)))"
  using float_of_int_nonzero [OF assms] by (simp add: samples_of_def true_div_def)

lemma samples_of_pos:
  assumes "0 \<le> tot" "tot < 2 ^ 53" "1 \<le> nt" "nt < 2 ^ 53"
  shows "samples_of tot nt = Inr (tot div nt)"
proof -
  have t: "float_of_int tot = of_int tot" using assms(1,2) by (intro float_of_int_exact) simp
  have n: "float_of_int nt = of_int nt" using assms(3,4) by (intro float_of_int_exact) simp
  have "nt \<noteq> 0" using assms(3) by simp
  then have "samples_of tot nt = Inr (py_int (to_double (float_of_int tot / float_of_int nt)))"
    by (rule samples_of_nonzero)
  then have "samples_of tot nt = Inr (py_int (to_double (of_int tot / of_int nt)))"
    unfolding t n .
  moreover have "py_int (to_double (of_int tot / of_int nt)) = tot div nt"
    using assms by (intro quotient_rounds_down) simp_all
  ultimately show ?thesis by simp
qed

lemma length_py_range: "length (py_range n) = nat n"
  by (simp add: py_range_def)

lemma thread_args_pos:
  assumes "0 \<le> tot" "tot < 2 ^ 53" "1 \<le> nt" "nt < 2 ^ 53"
  shows "thread_args tot nt = Inr (map (\<lambda>i. (tot div nt, i)) (py_range nt))"
  using assms by (simp add: thread_args_def samples_of_pos)

lemma sample_counts_pos:
  assumes "0 \<le> tot" "tot < 2 ^ 53" "1 \<le> nt" "nt < 2 ^ 53"
  shows "sample_counts tot nt = Inr (replicate (nat nt) (tot div nt))"
  using assms
  by (simp add: sample_counts_def thread_args_pos comp_def py_range_def map_replicate_const)


text \<open>
  The rounding of the quotient is visible for large totals: for a total of \<open>10^17\<close> and 3
  workers the quotient \<open>33333333333333333.33...\<close> lies between two doubles that are 4
  apart, and every worker is given 33333333333333332 samples.
\<close>

lemma samples_of_rounds: "samples_of 100000000000000000 3 = Inr 33333333333333332"
proof -
  have a: "float_of_int 100000000000000000 = 100000000000000000"
    unfolding float_of_int_def
    by (subst to_double_eq [where e = 4]) (simp_all add: dbl_eval)
  have b: "float_of_int 3 = 3"
    using float_of_int_exact [of 3] by simp
  have c: "to_double (100000000000000000 / 3) = 33333333333333332"
    by (subst to_double_eq [where e = 2]) (simp_all add: dbl_eval)
  show ?thesis by (simp add: samples_of_def true_div_def a b c py_int_def)
qed

text \<open>
  Claim C1, as stated: the sample counts of the workers add up to the requested total.
  The source gives every worker \<^verbatim>\<open>int(total/nt)\<close> samples, so for a total of 10 and
  4 workers the counts are 2, 2, 2, 2 and add up to 8.
\<close>

theorem partition_sum_counterexample:
  "sample_counts 10 4 = Inr [2, 2, 2, 2] \<and> sum_list [2, 2, 2, 2] \<noteq> (10::int)"
  by (simp add: sample_counts_pos numeral_eq_Suc)

text \<open>
  Claim C1, amended: for a total of at least 1 and at least 1 worker, both below
  \<open>2^53\<close>, the sample counts add up to the worker count times the floor of
  total / workers, that is to the total minus its remainder modulo the worker count.
  The sum is at most the total, misses it by less than the worker count, and equals it
  exactly when the worker count divides the total.
\<close>

theorem partition_sum:
  assumes "1 \<le> tot" "tot < 2 ^ 53" "1 \<le> nt" "nt < 2 ^ 53"
  shows "\<exists>cs. sample_counts tot nt = Inr cs \<and> length cs = nat nt
           \<and> sum_list cs = nt * (tot div nt)
           \<and> sum_list cs = tot - tot mod nt
           \<and> tot - nt < sum_list cs \<and> sum_list cs \<le> tot
           \<and> (sum_list cs = tot \<longleftrightarrow> nt dvd tot)"
proof -
  let ?cs = "replicate (nat nt) (tot div nt)"
  have cs: "sample_counts tot nt = Inr ?cs"
    using assms by (intro sample_counts_pos) simp_all
  have s1: "sum_list ?cs = nt * (tot div nt)"
    using assms by (simp add: sum_list_replicate)
  have s2: "nt * (tot div nt) = tot - tot mod nt"
    by (simp add: minus_mod_eq_mult_div)
  have m: "0 \<le> tot mod nt" "tot mod nt < nt"
    using assms by simp_all
  have d: "(tot mod nt = 0) = (nt dvd tot)"
    by (simp add: dvd_eq_mod_eq_0)
  show ?thesis
    using cs s1 s2 m d by (intro exI[of _ ?cs]) auto
qed

text \<open>The notebook's own numbers: 12000000 samples on 4 threads, nothing is lost.\<close>

theorem partition_sum_witness:
  "(1::int) \<le> 12000000 \<and> (12000000::int) < 2 ^ 53 \<and> (1::int) \<le> 4 \<and> (4::int) < 2 ^ 53 \<and>
   (\<exists>cs. sample_counts 12000000 4 = Inr cs \<and> length cs = 4 \<and> sum_list cs = 12000000)"
  using partition_sum [of 12000000 4] by auto

text \<open>
  Claim C2, as stated: the first (total mod workers) workers get one sample more than
  the floor of total / workers, so that 10 samples on 4 workers are split 3, 3, 2, 2.
  The source splits them 2, 2, 2, 2.
\<close>

theorem remainder_policy_counterexample:
  "sample_counts 10 4 = Inr [2, 2, 2, 2] \<and> [2, 2, 2, 2] \<noteq> [3, 3, 2, 2::int]"
  by (simp add: sample_counts_pos numeral_eq_Suc)

text \<open>
  Claim C2, amended: for a total of at least 1 and at least 1 worker, both below
  \<open>2^53\<close>, every worker is given exactly the floor of total / workers samples; no
  worker gets an extra sample. The same number is the \<^verbatim>\<open>nsamples\<close> of the
  multiprocessing example.
\<close>

theorem equal_shares:
  assumes "1 \<le> tot" "tot < 2 ^ 53" "1 \<le> nt" "nt < 2 ^ 53"
  shows "\<exists>cs. sample_counts tot nt = Inr cs \<and> length cs = nat nt
           \<and> (\<forall>i < nat nt. cs ! i = tot div nt)
           \<and> samples_of tot nt = Inr (tot div nt)"
  using assms by (simp add: sample_counts_pos samples_of_pos)

text \<open>10 samples on 4 workers: each of the four gets 2.\<close>

theorem equal_shares_witness:
  "(1::int) \<le> 10 \<and> (10::int) < 2 ^ 53 \<and> (1::int) \<le> 4 \<and> (4::int) < 2 ^ 53 \<and>
   (\<exists>cs. sample_counts 10 4 = Inr cs \<and> length cs = 4
      \<and> cs ! 0 = 2 \<and> cs ! 1 = 2 \<and> cs ! 2 = 2 \<and> cs ! 3 = 2)"
  using equal_shares [of 10 4] by auto



section \<open>The sampling loop\<close>

lemma length_draws: "length (draws rnd k g) = k"
  by (induction k arbitrary: g) (simp_all split: prod.splits)

lemma mp_loop_draws:
  "mp_loop rnd k g ins =
     (ins + int (length (filter in_circle (draws rnd k g))), after_draws rnd k g)"
  by (induction k arbitrary: g ins) (simp_all split: prod.splits)

lemma thr_loop_draws:
  "thr_loop rnd k st =
     st\<lparr>inside := inside st + int (length (filter in_circle (draws rnd k (gen st)))),
        gen := after_draws rnd k (gen st)\<rparr>"
  by (induction k arbitrary: st) (simp_all split: prod.splits)

lemma calcInside_thr_hits:
  "calcInside_thr R n s st =
     st\<lparr>inside := inside st + hits R n s,
        gen := after_draws (rng_random R) (nat n) (rng_seed R s)\<rparr>"
  by (simp add: calcInside_thr_def thr_loop_draws hits_def)

lemma calcInside_count_hits:
  "calcInside_count R n s = (hits R n s, after_draws (rng_random R) (nat n) (rng_seed R s))"
  by (simp add: calcInside_count_def mp_loop_draws hits_def)

lemma fst_calcInside_count: "fst (calcInside_count R n s) = hits R n s"
  by (simp add: calcInside_count_hits)

lemma hits_bounds: "0 \<le> hits R n s \<and> hits R n s \<le> max 0 n"
proof -
  have "length (filter in_circle (draws (rng_random R) (nat n) (rng_seed R s)))
          \<le> length (draws (rng_random R) (nat n) (rng_seed R s))"
    by (rule length_filter_le)
  then have "length (filter in_circle (draws (rng_random R) (nat n) (rng_seed R s))) \<le> nat n"
    by (simp add: length_draws)
  then show ?thesis unfolding hits_def by linarith
qed

lemma hits_nonpos: "n \<le> 0 \<Longrightarrow> hits R n s = 0"
  by (simp add: hits_def)

lemma mp_loop_counter:
  "ins \<le> fst (mp_loop rnd k g ins) \<and> fst (mp_loop rnd k g ins) \<le> ins + int k"
proof -
  have "length (filter in_circle (draws rnd k g)) \<le> k"
    using length_filter_le [of in_circle "draws rnd k g"] by (simp add: length_draws)
  then show ?thesis by (simp add: mp_loop_draws)
qed

lemma draws_unfold:
  "draws rnd n g =
     (if n = 0 then []
      else (fst (rnd g), fst (rnd (snd (rnd g)))) # draws rnd (n - 1) (snd (rnd (snd (rnd g)))))"
  by (cases n) (simp_all split: prod.splits)

lemma draws_in_unit:
  assumes "\<forall>g. 0 \<le> fst (rnd g) \<and> fst (rnd g) < 1"
  shows "\<forall>p \<in> set (draws rnd k g). 0 \<le> fst p \<and> fst p < 1 \<and> 0 \<le> snd p \<and> snd p < 1"
proof (induction k arbitrary: g)
  case 0
  show ?case by simp
next
  case (Suc k)
  obtain x g1 where a: "rnd g = (x, g1)" by (cases "rnd g")
  obtain y g2 where b: "rnd g1 = (y, g2)" by (cases "rnd g1")
  have x: "0 \<le> x \<and> x < 1" using assms [rule_format, of g] a by simp
  have y: "0 \<le> y \<and> y < 1" using assms [rule_format, of g1] b by simp
  show ?case using a b x y Suc.IH [of g2] by simp
qed

subsection \<open>The small generator\<close>

lemma lcg_random: "rng_random lcg g = (sixteenth g, (5 * g + 3) mod 16)"
  by (simp add: lcg_def)

lemma lcg_seed: "rng_seed lcg s = nat \<bar>s\<bar> mod 16"
  by (simp add: lcg_def)

lemma lcg_unit: "\<forall>g. 0 \<le> fst (rng_random lcg g) \<and> fst (rng_random lcg g) < 1"
  by (simp add: lcg_random sixteenth_def)

lemma to_double_256ths:
  assumes "0 \<le> m" "m \<le> 2 ^ 53"
  shows "to_double (of_int m / 256) = of_int m / 256"
proof -
  have e: "(of_int m / 256 :: rat) = of_int m * 2 powi (- 8)"
    by (simp add: power_int_minus_divide)
  show ?thesis unfolding e using assms by (intro to_double_grid) simp_all
qed

lemma in_circle_sixteenth:
  "in_circle (sixteenth a, sixteenth b) \<longleftrightarrow> (a mod 16) * (a mod 16) + (b mod 16) * (b mod 16) < 256"
proof -
  let ?p = "int (a mod 16)"
  let ?q = "int (b mod 16)"
  have p: "0 \<le> ?p" "?p < 16" by simp_all
  have q: "0 \<le> ?q" "?q < 16" by simp_all
  have pp: "?p * ?p \<le> 15 * 15" using p by (intro mult_mono) simp_all
  have qq: "?q * ?q \<le> 15 * 15" using q by (intro mult_mono) simp_all
  have xs: "sixteenth a * sixteenth a = of_int (?p * ?p) / 256"
    by (simp add: sixteenth_def)
  have ys: "sixteenth b * sixteenth b = of_int (?q * ?q) / 256"
    by (simp add: sixteenth_def)
  have fx: "fmul (sixteenth a) (sixteenth a) = of_int (?p * ?p) / 256"
    unfolding fmul_def xs using pp by (intro to_double_256ths) simp_all
  have fy: "fmul (sixteenth b) (sixteenth b) = of_int (?q * ?q) / 256"
    unfolding fmul_def ys using qq by (intro to_double_256ths) simp_all
  have s: "of_int (?p * ?p) / 256 + of_int (?q * ?q) / 256
             = (of_int (?p * ?p + ?q * ?q) / 256 :: rat)"
    by (simp add: add_divide_distrib)
  have fs: "fadd (fmul (sixteenth a) (sixteenth a)) (fmul (sixteenth b) (sixteenth b))
              = of_int (?p * ?p + ?q * ?q) / 256"
    unfolding fadd_def fx fy s using pp qq by (intro to_double_256ths) simp_all
  have "in_circle (sixteenth a, sixteenth b) \<longleftrightarrow> (of_int (?p * ?p + ?q * ?q) / 256 :: rat) < 1"
    by (simp add: in_circle_def fs)
  also have "\<dots> \<longleftrightarrow> (of_int (?p * ?p + ?q * ?q) :: rat) < of_int 256" by simp
  also have "\<dots> \<longleftrightarrow> ?p * ?p + ?q * ?q < 256" by (simp only: of_int_less_iff)
  also have "\<dots> \<longleftrightarrow> (a mod 16) * (a mod 16) + (b mod 16) * (b mod 16) < 256"
    by (metis (no_types) of_nat_add of_nat_mult of_nat_less_iff of_nat_numeral)
  finally show ?thesis .
qed

lemmas lcg_eval = draws_unfold lcg_random lcg_seed in_circle_sixteenth

lemma lcg_hits_4_0: "hits lcg 4 0 = 4"
  by (simp add: hits_def lcg_eval)

lemma lcg_hits_4_1: "hits lcg 4 1 = 3"
  by (simp add: hits_def lcg_eval)

lemma lcg_draws_4_0:
  "draws (rng_random lcg) 4 (rng_seed lcg 0)
     = [(0, 3 / 16), (1 / 8, 13 / 16), (1 / 4, 7 / 16), (3 / 8, 1 / 16)]"
  by (simp add: draws_unfold lcg_random lcg_seed sixteenth_def)

text \<open>
  Claim C9: for a sample count \<open>n\<close> of at least 1, the hit count of a task is at least 0
  and at most \<open>n\<close>. The counter of the loop never decreases and grows by at most one
  for each pair drawn; the threading version raises the shared counter by at least 0
  and at most \<open>n\<close>.
\<close>

theorem hit_count_bounds:
  assumes "1 \<le> n"
  shows "0 \<le> fst (calcInside_count R n s) \<and> fst (calcInside_count R n s) \<le> n
       \<and> inside st \<le> inside (calcInside_thr R n s st)
       \<and> inside (calcInside_thr R n s st) \<le> inside st + n
       \<and> (\<forall>k g ins. ins \<le> fst (mp_loop (rng_random R) k g ins)
                      \<and> fst (mp_loop (rng_random R) k g ins) \<le> ins + int k)"
  using assms hits_bounds [of R n s] mp_loop_counter [of _ "rng_random R"]
  by (simp add: calcInside_count_hits calcInside_thr_hits)

text \<open>Four pairs from seed 1 of the small generator: three hits.\<close>

theorem hit_count_bounds_witness:
  "(1::int) \<le> 4 \<and> 0 \<le> fst (calcInside_count lcg 4 1) \<and> fst (calcInside_count lcg 4 1) \<le> 4
    \<and> fst (calcInside_count lcg 4 1) = 3"
proof -
  have n: "(1::int) \<le> 4" by simp
  have v: "fst (calcInside_count lcg 4 1) = 3"
    by (simp add: calcInside_count_hits lcg_hits_4_1)
  show ?thesis using hit_count_bounds [OF n, of lcg 1] v by simp
qed

end
